theory Spec2Isabelle
  imports Complex_Main "HOL-Library.Word"
begin

unbundle bit_operations_syntax

section \<open>DL/T 645-2007 meter protocol engine: data model\<close>

text \<open>
  A Python \<open>bytes\<close> or \<open>bytearray\<close> value is a list of 8-bit words. Python integers are
  \<open>int\<close>. Every \<open>raise\<close> of the source is a value of \<open>error\<close>; the five
  \<open>ValueError\<close>s of \<open>_parse_response\<close> are told apart by their message.
\<close>

type_synonym byte = "8 word"

datatype error =
    FrameTooShort         \<comment> \<open>ValueError "Response too short"\<close>
  | InvalidFrameMarkers   \<comment> \<open>ValueError "Invalid frame markers"\<close>
  | InvalidSecondStart    \<comment> \<open>ValueError "Invalid second start byte"\<close>
  | LengthMismatch        \<comment> \<open>ValueError "Length mismatch"\<close>
  | ChecksumMismatch      \<comment> \<open>ValueError "Checksum mismatch"\<close>
  | ByteRange             \<comment> \<open>ValueError of \<open>bytes(...)\<close> and \<open>bytearray.append\<close>: not in range(0, 256)\<close>
  | OverflowError         \<comment> \<open>\<open>int.to_bytes\<close>: int too big to convert, or negative\<close>
  | IndexError            \<comment> \<open>index out of range\<close>
  | InvalidLiteral        \<comment> \<open>ValueError of \<open>int(x, 16)\<close> and of \<open>float(x)\<close>\<close>
  | PortNotOpen           \<comment> \<open>Exception "Serial port not open"\<close>
  | NoResponse            \<comment> \<open>Exception "No response from meter"\<close>
  | SerialException       \<comment> \<open>an exception raised by the serial port object\<close>

definition FRAME_START :: byte where
  "FRAME_START = 0x68"

definition FRAME_END :: byte where
  "FRAME_END = 0x16"

definition CMD_READ_DATA :: byte where
  "CMD_READ_DATA = 0x11"

subsection \<open>Python built-ins used by the codec\<close>

text \<open>\<open>bytes(xs)\<close> of a list of integers: every element must lie in range(0, 256).\<close>

definition bytes :: "int list \<Rightarrow> error + byte list" where
  "bytes xs = (if list_all (\<lambda>x. 0 \<le> x \<and> x < 256) xs then Inr (map word_of_int xs) else Inl ByteRange)"

text \<open>\<open>n.to_bytes(4, byteorder='little')\<close> and \<open>int.from_bytes(bs, byteorder='little')\<close>.\<close>

definition to_bytes4 :: "int \<Rightarrow> error + byte list" where
  "to_bytes4 n =
     (if 0 \<le> n \<and> n < 2 ^ 32
      then Inr [word_of_int n, word_of_int (n div 2 ^ 8), word_of_int (n div 2 ^ 16), word_of_int (n div 2 ^ 24)]
      else Inl OverflowError)"

fun from_bytes :: "byte list \<Rightarrow> int" where
  "from_bytes [] = 0"
| "from_bytes (b # bs) = uint b + 256 * from_bytes bs"

text \<open>
  \<open>str.zfill(width)\<close>: pads on the left with \<open>0\<close>; a leading sign stays in front of the
  padding.
\<close>

definition zfill :: "nat \<Rightarrow> string \<Rightarrow> string" where
  "zfill width s =
     (if width \<le> length s then s
      else (case s of
              [] \<Rightarrow> replicate width CHR ''0''
            | c # cs \<Rightarrow>
                if c = CHR ''+'' \<or> c = CHR ''-''
                then c # replicate (width - length s) CHR ''0'' @ cs
                else replicate (width - length s) CHR ''0'' @ s))"

text \<open>
  \<open>int(x, 16)\<close> on the slices \<open>addr[i:i+2]\<close>, which have at most two characters:
  surrounding white space is stripped, one sign is allowed, and at least one hexadecimal
  digit of either case must follow. (Digit-group underscores and the \<open>0x\<close> prefix need three
  characters to be accepted, so they cannot occur here.) Strings are taken as ASCII, where
  the white space \<open>int\<close> strips is the characters 9 to 13 and the blank 32 (not the
  separators 28 to 31, which \<open>str.strip\<close> would remove).
\<close>

definition hex_val :: "char \<Rightarrow> nat option" where
  "hex_val c =
     (let n = (of_char c :: nat) in
      if 48 \<le> n \<and> n \<le> 57 then Some (n - 48)
      else if 65 \<le> n \<and> n \<le> 70 then Some (n - 55)
      else if 97 \<le> n \<and> n \<le> 102 then Some (n - 87)
      else None)"

definition is_space :: "char \<Rightarrow> bool" where
  "is_space c = (let n = (of_char c :: nat) in (9 \<le> n \<and> n \<le> 13) \<or> n = 32)"

definition strip :: "string \<Rightarrow> string" where
  "strip s = rev (dropWhile is_space (rev (dropWhile is_space s)))"

fun hex_digits_val :: "nat \<Rightarrow> string \<Rightarrow> nat option" where
  "hex_digits_val acc [] = Some acc"
| "hex_digits_val acc (c # cs) =
     (case hex_val c of None \<Rightarrow> None | Some d \<Rightarrow> hex_digits_val (16 * acc + d) cs)"

definition int16 :: "string \<Rightarrow> error + int" where
  "int16 x =
     (let t = strip x;
          neg = (t \<noteq> [] \<and> hd t = CHR ''-'');
          ds = (if t \<noteq> [] \<and> (hd t = CHR ''-'' \<or> hd t = CHR ''+'') then tl t else t)
      in if ds = [] then Inl InvalidLiteral
         else (case hex_digits_val 0 ds of
                 None \<Rightarrow> Inl InvalidLiteral
               | Some n \<Rightarrow> Inr (if neg then - int n else int n)))"

text \<open>
  \<open>f"{byte:02X}"\<close>: two upper-case hexadecimal characters.
\<close>

definition hex_digit :: "nat \<Rightarrow> char" where
  "hex_digit n = ''0123456789ABCDEF'' ! n"

definition format_02X :: "byte \<Rightarrow> string" where
  "format_02X b = [hex_digit (unat b div 16), hex_digit (unat b mod 16)]"

text \<open>
  \<open>float(s)\<close> on the strings the decoders build, which consist of the characters
  \<open>0-9\<close>, \<open>A-F\<close> and \<open>.\<close> only (lemma \<open>decoder_alphabet\<close> below). On this alphabet
  Python accepts exactly \<open>digits [. [digits]] [E digits]\<close> and \<open>. digits [E digits]\<close>:
  white space, signs, underscores, a lower-case exponent mark, \<open>inf\<close> and \<open>nan\<close> need
  characters outside it. The result is the exact decimal value the string denotes;
  Python returns the binary64 nearest to it (correct rounding is a function of that
  value, so equal values give equal floats).
\<close>

definition is_digit :: "char \<Rightarrow> bool" where
  "is_digit c = (let n = (of_char c :: nat) in 48 \<le> n \<and> n \<le> 57)"

definition digit_val :: "char \<Rightarrow> nat" where
  "digit_val c = of_char c - 48"

fun digits_val :: "nat \<Rightarrow> string \<Rightarrow> nat" where
  "digits_val acc [] = acc"
| "digits_val acc (c # cs) = digits_val (10 * acc + digit_val c) cs"

definition float_of_str :: "string \<Rightarrow> error + rat" where
  "float_of_str s =
     (let m = takeWhile (\<lambda>c. c \<noteq> CHR ''E'') s;
          e = dropWhile (\<lambda>c. c \<noteq> CHR ''E'') s;
          ip = takeWhile (\<lambda>c. c \<noteq> CHR ''.'') m;
          fp = drop 1 (dropWhile (\<lambda>c. c \<noteq> CHR ''.'') m)
      in if \<not> list_all is_digit ip \<or> \<not> list_all is_digit fp \<or> (ip = [] \<and> fp = [])
         then Inl InvalidLiteral
         else if e = [] then Inr (of_nat (digits_val 0 (ip @ fp)) / 10 ^ length fp)
         else if tl e = [] \<or> \<not> list_all is_digit (tl e) then Inl InvalidLiteral
         else Inr (of_nat (digits_val 0 (ip @ fp)) / 10 ^ length fp * 10 ^ digits_val 0 (tl e)))"

section \<open>AddressCodec\<close>

text \<open>
  \<open>_format_address\<close>: the loop \<open>for i in range(0, 12, 2)\<close> appends
  \<open>int(addr[i:i+2], 16)\<close> to a bytearray; \<open>append\<close> raises outside range(0, 256).
\<close>

fun format_address_loop :: "string \<Rightarrow> nat list \<Rightarrow> byte list \<Rightarrow> error + byte list" where
  "format_address_loop addr [] addr_bytes = Inr addr_bytes"
| "format_address_loop addr (i # rest) addr_bytes =
     (case int16 (take 2 (drop i addr)) of
        Inl e \<Rightarrow> Inl e
      | Inr byte_val \<Rightarrow>
          if 0 \<le> byte_val \<and> byte_val < 256
          then format_address_loop addr rest (addr_bytes @ [word_of_int byte_val])
          else Inl ByteRange)"

definition format_address :: "string \<Rightarrow> error + byte list" where
  "format_address addr =
     (case format_address_loop (zfill 12 addr) [0, 2, 4, 6, 8, 10] [] of
        Inl e \<Rightarrow> Inl e
      | Inr addr_bytes \<Rightarrow> Inr (rev addr_bytes))"

section \<open>FrameCodec\<close>

definition add_33h :: "byte list \<Rightarrow> error + byte list" where
  "add_33h data = bytes (map (\<lambda>b. uint b + 0x33) data)"

definition sub_33h :: "byte list \<Rightarrow> error + byte list" where
  "sub_33h data = bytes (map (\<lambda>b. uint b - 0x33) data)"

definition calculate_checksum :: "byte list \<Rightarrow> int" where
  "calculate_checksum data = sum_list (map uint data) AND 0xFF"

text \<open>
  \<open>_build_frame(control_code, data_id=None, data=None)\<close> of \<^verbatim>\<open>dlt645_read.py\<close>;
  \<open>address\<close> is \<open>self.address\<close>. \<open>frame.append(len(data_field))\<close> raises when the
  data field has more than 255 bytes; the checksum is below 256 by construction.
\<close>

definition build_frame :: "byte list \<Rightarrow> byte \<Rightarrow> int option \<Rightarrow> byte list option \<Rightarrow> error + byte list" where
  "build_frame address control_code data_id data =
     (case (case data_id of None \<Rightarrow> Inr [] | Some d \<Rightarrow> to_bytes4 d) of
        Inl e \<Rightarrow> Inl e
      | Inr di_bytes \<Rightarrow>
          (let data_field = di_bytes @ (case data of None \<Rightarrow> [] | Some p \<Rightarrow> p)
           in case (if data_field \<noteq> [] then add_33h data_field else Inr data_field) of
                Inl e \<Rightarrow> Inl e
              | Inr masked \<Rightarrow>
                  if 255 < length masked then Inl ByteRange
                  else (let frame = [FRAME_START] @ address @ [FRAME_START, control_code,
                                      of_nat (length masked)] @ masked
                        in Inr (frame @ [word_of_int (calculate_checksum frame), FRAME_END]))))"

text \<open>The dictionary \<open>_parse_response\<close> returns.\<close>

record parsed =
  p_address :: "byte list"
  p_control :: byte
  p_data_id :: "int option"
  p_data :: "byte list"
  p_raw :: "byte list"

text \<open>The tail of \<open>_parse_response\<close>, shared by all its copies: unmask, split off the identifier.\<close>

definition unmask_and_split :: "byte list \<Rightarrow> byte \<Rightarrow> byte list \<Rightarrow> byte list \<Rightarrow> error + parsed" where
  "unmask_and_split addr control data_field response =
     (case (if data_field \<noteq> [] then sub_33h data_field else Inr data_field) of
        Inl e \<Rightarrow> Inl e
      | Inr data_field' \<Rightarrow>
          Inr (if 4 \<le> length data_field'
               then \<lparr>p_address = addr, p_control = control,
                     p_data_id = Some (from_bytes (take 4 data_field')),
                     p_data = drop 4 data_field', p_raw = response\<rparr>
               else \<lparr>p_address = addr, p_control = control, p_data_id = None,
                     p_data = data_field', p_raw = response\<rparr>))"

text \<open>\<open>_parse_response\<close> of \<^verbatim>\<open>dlt645_read.py\<close> (the first class of that file).\<close>

definition parse_response :: "byte list \<Rightarrow> error + parsed" where
  "parse_response response =
     (if length response < 12 then Inl FrameTooShort
      else if response ! 0 \<noteq> FRAME_START \<or> last response \<noteq> FRAME_END then Inl InvalidFrameMarkers
      else if response ! 7 \<noteq> FRAME_START then Inl InvalidSecondStart
      else (let addr = take 6 (drop 1 response);
                control = response ! 8;
                len = unat (response ! 9);
                expected_len = 12 + len
            in if length response \<noteq> expected_len then Inl LengthMismatch
               else (let data_field = take len (drop 10 response);
                         checksum_received = response ! (10 + len);
                         checksum_calculated = calculate_checksum (take (10 + len) response)
                     in if uint checksum_received \<noteq> checksum_calculated then Inl ChecksumMismatch
                        else unmask_and_split addr control data_field response)))"

text \<open>
  \<open>_parse_response\<close> of \<^verbatim>\<open>dlt645_read_1.py\<close> (and of \<^verbatim>\<open>dlt645_single_phase.py\<close>):
  no length check, so \<open>response[10+length]\<close> can be out of range; the result has no
  \<open>address\<close> entry (left empty here).
\<close>

definition parse_response_1 :: "byte list \<Rightarrow> error + parsed" where
  "parse_response_1 response =
     (if length response < 12 then Inl FrameTooShort
      else if response ! 0 \<noteq> FRAME_START \<or> last response \<noteq> FRAME_END then Inl InvalidFrameMarkers
      else if response ! 7 \<noteq> FRAME_START then Inl InvalidSecondStart
      else (let control = response ! 8;
                len = unat (response ! 9);
                data_field = take len (drop 10 response)
            in if length response \<le> 10 + len then Inl IndexError
               else (let checksum_received = response ! (10 + len);
                         checksum_calculated = calculate_checksum (take (10 + len) response)
                     in if uint checksum_received \<noteq> checksum_calculated then Inl ChecksumMismatch
                        else unmask_and_split [] control data_field response)))"

section \<open>ValueDecoder\<close>

text \<open>The loop \<open>for byte in reversed(...): value_str += f"{byte:02X}"\<close>.\<close>

definition hex_string :: "byte list \<Rightarrow> string" where
  "hex_string bs = concat (map format_02X bs)"

text \<open>\<open>value_str[:-n] + "." + value_str[-n:]\<close>, with Python's slice rules.\<close>

definition insert_point :: "nat \<Rightarrow> string \<Rightarrow> string" where
  "insert_point n s =
     (if n = 0 then ''.'' @ s
      else take (length s - n) s @ ''.'' @ drop (length s - n) s)"

text \<open>\<open>try: return float(value_str)  except: return None\<close>.\<close>

definition try_float :: "string \<Rightarrow> rat option" where
  "try_float s = (case float_of_str s of Inl e \<Rightarrow> None | Inr x \<Rightarrow> Some x)"

definition decode_energy :: "byte list \<Rightarrow> rat option" where
  "decode_energy data =
     (if length data < 4 then None
      else (let value_str = hex_string (rev (take 4 data));
                value_str = (if 2 \<le> length value_str then insert_point 2 value_str else value_str)
            in try_float value_str))"

definition decode_voltage :: "byte list \<Rightarrow> rat option" where
  "decode_voltage data =
     (if length data < 2 then None
      else (let value_str = hex_string (rev (take 2 data));
                value_str = (if 1 \<le> length value_str then insert_point 1 value_str else value_str)
            in try_float value_str))"

definition decode_current :: "byte list \<Rightarrow> rat option" where
  "decode_current data =
     (if length data < 3 then None
      else (let value_str = hex_string (rev (take 3 data));
                value_str = (if 3 \<le> length value_str then insert_point 3 value_str else value_str)
            in try_float value_str))"

definition decode_power :: "byte list \<Rightarrow> rat option" where
  "decode_power data =
     (if length data < 3 then None
      else (let value_str = hex_string (rev (take 3 data));
                value_str = (if 4 \<le> length value_str then insert_point 4 value_str else value_str)
            in try_float value_str))"

text \<open>\<open>decode_generic_bcd(data, decimal_places=2)\<close> of \<^verbatim>\<open>dlt645_read_1.py\<close>.\<close>

definition decode_generic_bcd :: "byte list \<Rightarrow> int \<Rightarrow> rat option" where
  "decode_generic_bcd data decimal_places =
     (if data = [] then None
      else (let value_str = hex_string (rev data);
                value_str = (if 0 < decimal_places \<and> decimal_places \<le> int (length value_str)
                             then insert_point (nat decimal_places) value_str else value_str)
            in if value_str \<noteq> [] \<and> value_str \<noteq> ''.'' then try_float value_str else None))"

text \<open>
  The value the spec's decoder describes, following its words: read the bytes in reverse
  order, render each byte as its two BCD digits, concatenate them into a digit string;
  the string is then read as a decimal number.
\<close>

definition is_bcd :: "byte \<Rightarrow> bool" where
  "is_bcd b = (unat b div 16 \<le> 9 \<and> unat b mod 16 \<le> 9)"

definition spec_bcd_digits :: "byte list \<Rightarrow> nat list" where
  "spec_bcd_digits data = concat (map (\<lambda>b. [unat b div 16, unat b mod 16]) (rev data))"

definition spec_decimal :: "nat list \<Rightarrow> nat" where
  "spec_decimal ds = foldl (\<lambda>a d. 10 * a + d) 0 ds"

section \<open>Transport\<close>

text \<open>
  The serial port is explicit state. \<open>incoming\<close> is what the line and the port do, one
  entry for each attempt of \<open>_send_frame\<close>: \<open>Delivers bs\<close> when every port operation of
  the attempt succeeds and the accumulation loop (the \<open>while time.time() < timeout\<close> loop,
  whose clock is not modelled) gathers the bytes \<open>bs\<close> until the line falls silent, \<open>[]\<close>
  when nothing arrives; \<open>Raises f\<close> when the port object raises an exception inside the
  \<open>try\<close> block, at the operation \<open>f\<close>: one of the two buffer resets, one of the two
  writes, or a read in the accumulation loop. A line with no entry left stays silent.
  \<open>events\<close> records the buffer resets, writes and sleeps (in milliseconds) that were
  completed, in the order the code makes them.
\<close>

datatype event = ResetInput | ResetOutput | Sleep nat | Write "byte list"

datatype port_fault = AtResetInput | AtResetOutput | AtWriteWakeup | AtWriteFrame | AtRead

datatype attempt = Delivers "byte list" | Raises port_fault

record serial_port =
  is_open :: bool
  incoming :: "attempt list"
  events :: "event list"

definition emit :: "event list \<Rightarrow> serial_port \<Rightarrow> serial_port" where
  "emit es s = s\<lparr>events := events s @ es\<rparr>"

definition wakeup :: "byte list" where
  "wakeup = [0xFE, 0xFE, 0xFE, 0xFE]"

text \<open>
  The statements of the \<open>try\<close> block before the accumulation loop, run in order: a port
  operation raises when the attempt's fault is at it, and is recorded otherwise;
  \<open>time.sleep\<close> does not raise. The result is the state when the block is left.
\<close>

datatype action = PortOp port_fault event | Wait nat

fun run :: "action list \<Rightarrow> port_fault option \<Rightarrow> serial_port \<Rightarrow> serial_port" where
  "run [] fault s = s"
| "run (Wait ms # rest) fault s = run rest fault (emit [Sleep ms] s)"
| "run (PortOp here ev # rest) fault s =
     (if fault = Some here then s else run rest fault (emit [ev] s))"

text \<open>
  One attempt, from \<open>reset_input_buffer()\<close> to the end of the accumulation loop:
  \<open>Some response\<close> when the loop ends with the bytes gathered, \<open>None\<close> when the port
  raised.
\<close>

definition exchange :: "byte list \<Rightarrow> serial_port \<Rightarrow> byte list option \<times> serial_port" where
  "exchange frame s =
     (let entry = (case incoming s of [] \<Rightarrow> Delivers [] | e # rest \<Rightarrow> e);
          fault = (case entry of Delivers bs \<Rightarrow> None | Raises f \<Rightarrow> Some f);
          s1 = run [PortOp AtResetInput ResetInput, PortOp AtResetOutput ResetOutput, Wait 300,
                    PortOp AtWriteWakeup (Write wakeup), Wait 100,
                    PortOp AtWriteFrame (Write frame), Wait 600]
                 fault (s\<lparr>incoming := tl (incoming s)\<rparr>)
      in (case entry of Delivers bs \<Rightarrow> Some bs | Raises f \<Rightarrow> None, s1))"

text \<open>
  \<open>_send_frame(frame, retries)\<close> of \<^verbatim>\<open>dlt645_read_1.py\<close>: the loop
  \<open>for attempt in range(retries)\<close> runs over the list of attempt numbers;
  \<open>attempt < retries - 1\<close> is written \<open>attempt + 1 < retries\<close> on naturals.
\<close>

fun send_frame_loop :: "byte list \<Rightarrow> nat \<Rightarrow> nat list \<Rightarrow> serial_port \<Rightarrow> (error + byte list) \<times> serial_port" where
  "send_frame_loop frame retries [] s = (Inl NoResponse, s)"
| "send_frame_loop frame retries (attempt # rest) s =
     (case exchange frame s of
        (Some response, s1) \<Rightarrow>
          if response \<noteq> [] then (Inr response, s1)
          else send_frame_loop frame retries rest
                 (if attempt + 1 < retries then emit [Sleep 1000] s1 else s1)
      | (None, s1) \<Rightarrow>
          if attempt + 1 < retries
          then send_frame_loop frame retries rest (emit [Sleep 1000] s1)
          else (Inl SerialException, s1))"

definition send_frame :: "byte list \<Rightarrow> nat \<Rightarrow> serial_port \<Rightarrow> (error + byte list) \<times> serial_port" where
  "send_frame frame retries s =
     (if \<not> is_open s then (Inl PortNotOpen, s)
      else send_frame_loop frame retries [0..<retries] s)"

text \<open>\<open>_build_frame(control_code, data_id)\<close> of \<^verbatim>\<open>dlt645_read_1.py\<close>.\<close>

definition build_frame_1 :: "byte list \<Rightarrow> byte \<Rightarrow> int \<Rightarrow> error + byte list" where
  "build_frame_1 address control_code data_id =
     (case to_bytes4 data_id of
        Inl e \<Rightarrow> Inl e
      | Inr di_bytes \<Rightarrow>
          (case add_33h di_bytes of
             Inl e \<Rightarrow> Inl e
           | Inr data_field \<Rightarrow>
               (let frame = [FRAME_START] @ address @ [FRAME_START, control_code,
                              of_nat (length data_field)] @ data_field
                in Inr (frame @ [word_of_int (calculate_checksum frame), FRAME_END]))))"

text \<open>
  \<open>read_data(data_id)\<close> of \<^verbatim>\<open>dlt645_read_1.py\<close>: the frame is built outside the
  \<open>try\<close>; \<open>_send_frame(frame)\<close> runs with its default \<open>retries=1\<close>; any exception of the
  exchange or of the parse is caught and gives \<open>None\<close>.
\<close>

definition read_data :: "byte list \<Rightarrow> int \<Rightarrow> serial_port \<Rightarrow> (error + parsed option) \<times> serial_port" where
  "read_data address data_id s =
     (case build_frame_1 address CMD_READ_DATA data_id of
        Inl e \<Rightarrow> (Inl e, s)
      | Inr frame \<Rightarrow>
          (case send_frame frame 1 s of
             (Inl e, s1) \<Rightarrow> (Inr None, emit [Sleep 500] s1)
           | (Inr response, s1) \<Rightarrow>
               (case parse_response_1 response of
                  Inl e \<Rightarrow> (Inr None, emit [Sleep 500] s1)
                | Inr result \<Rightarrow> (Inr (Some result), emit [Sleep 1500] s1))))"

text \<open>
  What one attempt leaves in the event record, written out: the whole sequence (both
  resets, 0.3 s, the wake preamble FE FE FE FE, 0.1 s, the frame, 0.6 s) when no port
  operation raises before the accumulation loop, and the part completed before the fault
  otherwise.
\<close>

fun attempt_trace :: "byte list \<Rightarrow> attempt \<Rightarrow> event list" where
  "attempt_trace frame (Delivers bs) =
     [ResetInput, ResetOutput, Sleep 300, Write [0xFE, 0xFE, 0xFE, 0xFE], Sleep 100,
      Write frame, Sleep 600]"
| "attempt_trace frame (Raises AtResetInput) = []"
| "attempt_trace frame (Raises AtResetOutput) = [ResetInput]"
| "attempt_trace frame (Raises AtWriteWakeup) = [ResetInput, ResetOutput, Sleep 300]"
| "attempt_trace frame (Raises AtWriteFrame) =
     [ResetInput, ResetOutput, Sleep 300, Write [0xFE, 0xFE, 0xFE, 0xFE], Sleep 100]"
| "attempt_trace frame (Raises AtRead) =
     [ResetInput, ResetOutput, Sleep 300, Write [0xFE, 0xFE, 0xFE, 0xFE], Sleep 100,
      Write frame, Sleep 600]"

section \<open>Masking\<close>

lemma uint_lt_CD: "(b::byte) < 0xCD \<longleftrightarrow> uint b < 205"
  by (simp add: word_less_def)

lemma uint_byte_lt: "uint (b::byte) < 256"
  using uint_lt2p [of b] by simp

lemma add_33h_ok:
  "list_all (\<lambda>b. b < 0xCD) D \<Longrightarrow> add_33h D = Inr (map (\<lambda>b. b + 0x33) D)"
  unfolding add_33h_def bytes_def
  by (induction D) (auto simp: uint_lt_CD list_all_iff)

lemma uint_add33: "(b::byte) < 0xCD \<Longrightarrow> uint (b + 0x33) = uint b + 51"
  by (simp add: uint_lt_CD uint_word_ariths)

lemma bytes_uint: "bytes (map uint (D::byte list)) = Inr D"
  unfolding bytes_def by (simp add: list_all_iff uint_byte_lt map_idI)

lemma sub_add_33h:
  assumes "list_all (\<lambda>b. b < 0xCD) D"
  shows "sub_33h (map (\<lambda>b. b + 0x33) D) = Inr D"
proof -
  have "map (\<lambda>b. uint b - 0x33) (map (\<lambda>b. b + 0x33) D) = map uint D"
    using assms by (induction D) (auto simp: uint_add33)
  then show ?thesis unfolding sub_33h_def by (simp only: bytes_uint)
qed

text \<open>
  C2. Masking adds 0x33 to each byte modulo 256 and unmasking subtracts it modulo 256,
  both defined on every byte value. The code adds and subtracts on unbounded integers and
  hands the result to \<open>bytes(...)\<close>: masking the byte 0xCD (and any larger one) raises, and
  so does unmasking the byte 0x32 (and any smaller one); 0xCC is the largest byte that
  can be masked.
\<close>

theorem add_33h_not_total:
  "add_33h [0xCD] = Inl ByteRange \<and> sub_33h [0x32] = Inl ByteRange \<and> add_33h [0xCC] = Inr [0xFF]"
  by (simp add: add_33h_def sub_33h_def bytes_def)

section \<open>Worked examples of the decoders\<close>

text \<open>
  C9. The fixed-parameter decoders reproduce the worked examples: the energy payload
  78 56 34 12 decodes to 123456.78 and the voltage payload 30 22 decodes to 223.0.
\<close>

theorem decode_examples:
  "decode_energy [0x78, 0x56, 0x34, 0x12] = Some (12345678 / 100) \<and>
   decode_voltage [0x30, 0x22] = Some 223"
  by (simp add: decode_energy_def decode_voltage_def hex_string_def format_02X_def hex_digit_def
      insert_point_def try_float_def float_of_str_def is_digit_def digit_val_def)

section \<open>Frames\<close>

lemma from_to_bytes4:
  assumes "0 \<le> n" "n < 2 ^ 32"
  shows "\<exists>bs. to_bytes4 n = Inr bs \<and> length bs = 4 \<and> from_bytes bs = n"
proof -
  define q1 where "q1 = n div 256"
  define q2 where "q2 = q1 div 256"
  define q3 where "q3 = q2 div 256"
  have d2: "n div 2 ^ 16 = q2" unfolding q2_def q1_def by (simp add: zdiv_zmult2_eq)
  have d3: "n div 2 ^ 24 = q3" unfolding q3_def q2_def q1_def by (simp add: zdiv_zmult2_eq)
  have q3b: "0 \<le> q3" "q3 < 256" using assms unfolding d3[symmetric] by simp_all
  have "n = n mod 256 + 256 * (q1 mod 256 + 256 * (q2 mod 256 + 256 * q3))"
    unfolding q3_def q2_def q1_def by simp
  then show ?thesis using assms q3b d2 d3
    by (simp add: to_bytes4_def uint_word_of_int take_bit_eq_mod q1_def[symmetric])
qed

lemma checksum_mod: "calculate_checksum data = sum_list (map uint data) mod 256"
proof -
  have m: "(0xFF::int) = mask 8" by (simp add: mask_eq_exp_minus_1)
  show ?thesis unfolding calculate_checksum_def m
    by (simp add: take_bit_eq_mask [symmetric] take_bit_eq_mod)
qed

lemma checksum_range: "0 \<le> calculate_checksum data \<and> calculate_checksum data < 256"
  by (simp add: checksum_mod)

lemma uint_checksum: "uint (word_of_int (calculate_checksum data) :: byte) = calculate_checksum data"
  by (simp add: uint_word_of_int take_bit_eq_mod checksum_mod)

text \<open>What \<open>_parse_response\<close> does with a response split as body, checksum byte, end byte.\<close>

lemma parse_response_snoc:
  assumes "10 \<le> length pre"
  shows "parse_response (pre @ [c, e]) =
     (if pre ! 0 \<noteq> FRAME_START \<or> e \<noteq> FRAME_END then Inl InvalidFrameMarkers
      else if pre ! 7 \<noteq> FRAME_START then Inl InvalidSecondStart
      else if length pre \<noteq> 10 + unat (pre ! 9) then Inl LengthMismatch
      else if uint c \<noteq> calculate_checksum pre then Inl ChecksumMismatch
      else unmask_and_split (take 6 (drop 1 pre)) (pre ! 8) (drop 10 pre) (pre @ [c, e]))"
  using assms
  by (auto simp: parse_response_def Let_def nth_append)

lemma to_bytes4_Inr:
  assumes "to_bytes4 n = Inr bs"
  shows "length bs = 4 \<and> from_bytes bs = n"
proof -
  from assms have "0 \<le> n" "n < 2 ^ 32" by (auto simp: to_bytes4_def split: if_splits)
  from from_to_bytes4 [OF this] assms show ?thesis by auto
qed

text \<open>The bytes of a frame before its checksum, for a masked data field.\<close>

lemma build_frame_masked:
  assumes "(case data_id of None \<Rightarrow> Inr [] | Some d \<Rightarrow> to_bytes4 d) = Inr dib"
    and "list_all (\<lambda>b. b < 0xCD) (dib @ (case data of None \<Rightarrow> [] | Some p \<Rightarrow> p))"
    and "length (dib @ (case data of None \<Rightarrow> [] | Some p \<Rightarrow> p)) \<le> 255"
    and "masked = map (\<lambda>b. b + 0x33) (dib @ (case data of None \<Rightarrow> [] | Some p \<Rightarrow> p))"
    and "pre = FRAME_START # address @ [FRAME_START, control_code, of_nat (length masked)] @ masked"
  shows "build_frame address control_code data_id data =
           Inr (pre @ [word_of_int (calculate_checksum pre), FRAME_END])"
proof -
  let ?df = "dib @ (case data of None \<Rightarrow> [] | Some p \<Rightarrow> p)"
  have a: "(if ?df \<noteq> [] then add_33h ?df else Inr ?df) = Inr masked"
    using add_33h_ok [OF assms(2)] assms(4) by auto
  show ?thesis
    unfolding build_frame_def assms(1) using a assms(3,4,5)
    by (simp add: Let_def)
qed

lemma unmask_and_split_id:
  assumes "list_all (\<lambda>b. b < 0xCD) (dib @ payload)" "length dib = 4"
  shows "unmask_and_split addr control (map (\<lambda>b. b + 0x33) (dib @ payload)) response =
           Inr \<lparr>p_address = addr, p_control = control, p_data_id = Some (from_bytes dib),
                p_data = payload, p_raw = response\<rparr>"
  unfolding unmask_and_split_def using sub_add_33h [OF assms(1)] assms(2)
  by (auto simp del: map_append)

lemma unat_of_nat_byte: "n \<le> 255 \<Longrightarrow> unat (of_nat n :: byte) = n"
  by (simp add: unat_of_nat)

lemma build_frame_Inr:
  assumes "build_frame address control_code data_id data = Inr frame"
  shows "\<exists>masked pre. length masked \<le> 255 \<and>
           pre = FRAME_START # address @ [FRAME_START, control_code, of_nat (length masked)] @ masked \<and>
           frame = pre @ [word_of_int (calculate_checksum pre), FRAME_END]"
  using assms unfolding build_frame_def
  by (auto simp: Let_def split: sum.splits if_splits)

lemma sum_list_uint_update:
  "i < length xs \<Longrightarrow>
     sum_list (map uint (xs[i := y])) = sum_list (map uint xs) - uint (xs ! i) + uint (y::byte)"
  by (induction xs arbitrary: i) (auto split: nat.splits)

lemma checksum_update:
  assumes "i < length xs" "y \<noteq> xs ! i"
  shows "calculate_checksum (xs[i := y]) \<noteq> calculate_checksum xs"
proof
  assume eq: "calculate_checksum (xs[i := y]) = calculate_checksum xs"
  define S where "S = sum_list (map uint xs)"
  define a where "a = uint (xs ! i)"
  define b where "b = uint y"
  have r: "0 \<le> a" "a < 256" "0 \<le> b" "b < 256" by (simp_all add: a_def b_def uint_byte_lt)
  have "(S - a + b) mod 256 = S mod 256"
    using eq sum_list_uint_update [OF assms(1), of y] by (simp add: checksum_mod S_def a_def b_def)
  then have "(256::int) dvd (S - a + b) - S" by (simp only: mod_eq_dvd_iff)
  then have d: "(256::int) dvd b - a" by simp
  have "a = b"
  proof (rule ccontr)
    assume "a \<noteq> b"
    then have "b - a \<noteq> 0" by simp
    from dvd_imp_le_int [OF this d] r show False by linarith
  qed
  then have "y = xs ! i" unfolding a_def b_def by (simp add: word_uint_eq_iff)
  with assms(2) show False by simp
qed

lemma flip_bit_neq: "k < 8 \<Longrightarrow> flip_bit k (b::byte) \<noteq> b"
proof
  assume k: "k < 8" and eq: "flip_bit k b = b"
  have "bit (flip_bit k b) k \<longleftrightarrow> \<not> bit b k" using k by (simp add: bit_flip_bit_iff)
  with eq show False by simp
qed

section \<open>Round trip\<close>

text \<open>
  C1 as the claim states it: for every control code, identifier and payload, parsing the
  built frame succeeds. It fails for a payload of 252 bytes: with the four identifier
  bytes the data field has 256 bytes, and \<open>frame.append(len(data_field))\<close> raises, so no
  frame is built.
\<close>

theorem build_oversized_payload_raises:
  "build_frame [1, 0, 0, 0, 0, 0] 0x11 (Some 0) (Some (replicate 252 0)) = Inl ByteRange"
  by (simp add: build_frame_def to_bytes4_def add_33h_def bytes_def list_all_iff)

text \<open>
  C1, amended. For a 6-byte meter address, every control code, every 4-byte identifier
  and every payload of at most 251 bytes such that all identifier and payload bytes are
  below 0xCD, \<open>_build_frame\<close> returns a frame and \<open>_parse_response\<close> of that frame
  succeeds and returns the same identifier and the same payload (and the address and
  control code of the request).
\<close>

theorem build_parse_roundtrip:
  assumes "length address = 6"
    and "to_bytes4 data_id = Inr dib"
    and "list_all (\<lambda>b. b < 0xCD) (dib @ payload)"
    and "length payload \<le> 251"
  shows "\<exists>frame. build_frame address control_code (Some data_id) (Some payload) = Inr frame \<and>
           parse_response frame =
             Inr \<lparr>p_address = address, p_control = control_code, p_data_id = Some data_id,
                  p_data = payload, p_raw = frame\<rparr>"
proof -
  define masked where "masked = map (\<lambda>b. b + 0x33) (dib @ payload)"
  define pre where "pre = FRAME_START # address @ [FRAME_START, control_code, of_nat (length masked)] @ masked"
  define frame where "frame = pre @ [word_of_int (calculate_checksum pre), FRAME_END]"
  have len: "length dib = 4" "from_bytes dib = data_id" using to_bytes4_Inr [OF assms(2)] by auto
  have lm: "length masked = 4 + length payload" by (simp add: masked_def len)
  have b: "build_frame address control_code (Some data_id) (Some payload) = Inr frame"
    unfolding frame_def
    by (rule build_frame_masked [where dib = dib and masked = masked])
       (use assms len in \<open>simp_all add: masked_def pre_def\<close>)
  have l10: "10 \<le> length pre" "length pre = 10 + length masked" by (simp_all add: pre_def assms(1))
  have n0: "pre ! 0 = FRAME_START" by (simp add: pre_def)
  have n7: "pre ! 7 = FRAME_START" by (simp add: pre_def nth_append nth_Cons' assms(1))
  have n8: "pre ! 8 = control_code" by (simp add: pre_def nth_append nth_Cons' assms(1))
  have n9: "pre ! 9 = of_nat (length masked)" by (simp add: pre_def nth_append nth_Cons' assms(1))
  have "length masked \<le> 255" using assms(4) lm by simp
  then have u9: "unat (pre ! 9) = length masked" unfolding n9 by (rule unat_of_nat_byte)
  have ta: "take 6 (drop (Suc 0) pre) = address" by (simp add: pre_def assms(1))
  have dm: "drop 10 pre = masked" by (simp add: pre_def assms(1))
  have "parse_response frame = unmask_and_split address control_code masked frame"
    unfolding frame_def
    by (simp add: parse_response_snoc [OF l10(1)] n0 n7 n8 u9 l10(2) ta dm uint_checksum)
  also have "\<dots> = Inr \<lparr>p_address = address, p_control = control_code, p_data_id = Some data_id,
                  p_data = payload, p_raw = frame\<rparr>"
    unfolding masked_def using unmask_and_split_id [OF assms(3) len(1)] len(2) by simp
  finally show ?thesis using b by blast
qed

theorem build_parse_roundtrip_witness:
  "length [1, 0, 0, 0, 0, 0 :: byte] = 6 \<and>
   to_bytes4 0x02010100 = Inr [0, 1, 1, 2] \<and>
   list_all (\<lambda>b. b < 0xCD) ([0, 1, 1, 2] @ [0x30, 0x22 :: byte]) \<and>
   length [0x30, 0x22 :: byte] \<le> 251 \<and>
   (\<exists>frame. build_frame [1, 0, 0, 0, 0, 0] 0x11 (Some 0x02010100) (Some [0x30, 0x22]) = Inr frame \<and>
      parse_response frame =
        Inr \<lparr>p_address = [1, 0, 0, 0, 0, 0], p_control = 0x11, p_data_id = Some 0x02010100,
             p_data = [0x30, 0x22], p_raw = frame\<rparr>)"
proof -
  have h1: "length [1, 0, 0, 0, 0, 0 :: byte] = 6" by simp
  have h2: "to_bytes4 0x02010100 = Inr [0, 1, 1, 2]" by (simp add: to_bytes4_def)
  have h3: "list_all (\<lambda>b. b < 0xCD) ([0, 1, 1, 2] @ [0x30, 0x22 :: byte])" by simp
  have h4: "length [0x30, 0x22 :: byte] \<le> 251" by simp
  from build_parse_roundtrip [OF h1 h2 h3 h4, of "0x11"] h1 h2 h3 h4 show ?thesis by blast
qed

section \<open>Checksum sensitivity\<close>

text \<open>
  C4 as the claim states it: every single-bit flip outside the checksum byte makes the
  parse fail with ChecksumMismatch. It fails for the start marker: flipping bit 0 of byte 0
  of the read request for identifier 0 is rejected by the marker check, which comes first.
\<close>

theorem flip_start_marker_not_checksum:
  "build_frame [1, 0, 0, 0, 0, 0] 0x11 (Some 0) None =
     Inr [0x68, 1, 0, 0, 0, 0, 0, 0x68, 0x11, 4, 0x33, 0x33, 0x33, 0x33, 0xB2, 0x16] \<and>
   parse_response ([0x68, 1, 0, 0, 0, 0, 0, 0x68, 0x11, 4, 0x33, 0x33, 0x33, 0x33, 0xB2, 0x16]
                     [0 := flip_bit 0 (0x68 :: byte)]) = Inl InvalidFrameMarkers"
  by (simp add: build_frame_def to_bytes4_def add_33h_def bytes_def calculate_checksum_def
      parse_response_def FRAME_START_def FRAME_END_def flip_bit_eq_xor)

text \<open>
  C4, amended. For every frame built by \<open>_build_frame\<close> (with a 6-byte address) and every
  single-bit flip in a byte other than the checksum byte, \<open>_parse_response\<close> fails:
  with ChecksumMismatch when the byte is an address byte, the control byte or a data byte;
  with InvalidFrameMarkers when it is the first start marker or the end marker; with
  InvalidSecondStart when it is the second start marker (byte 7); with LengthMismatch when
  it is the length byte (byte 9).
\<close>

theorem bit_flip_detected:
  assumes "length address = 6"
    and "build_frame address control_code data_id data = Inr frame"
    and "i < length frame" and "i \<noteq> length frame - 2" and "k < 8"
  shows "parse_response (frame[i := flip_bit k (frame ! i)]) =
           Inl (if i = 0 \<or> i = length frame - 1 then InvalidFrameMarkers
                else if i = 7 then InvalidSecondStart
                else if i = 9 then LengthMismatch
                else ChecksumMismatch)"
proof -
  from build_frame_Inr [OF assms(2)] obtain masked pre where
    lm: "length masked \<le> 255" and
    pre: "pre = FRAME_START # address @ [FRAME_START, control_code, of_nat (length masked)] @ masked" and
    frame: "frame = pre @ [word_of_int (calculate_checksum pre), FRAME_END]"
    by blast
  define c :: byte where "c = word_of_int (calculate_checksum pre)"
  define x where "x = flip_bit k (frame ! i)"
  have xneq: "x \<noteq> frame ! i" unfolding x_def by (rule flip_bit_neq [OF assms(5)])
  have lp: "length pre = 10 + length masked" by (simp add: pre assms(1))
  have n0: "pre ! 0 = FRAME_START" by (simp add: pre)
  have n7: "pre ! 7 = FRAME_START" by (simp add: pre nth_append nth_Cons' assms(1))
  have n9: "pre ! 9 = of_nat (length masked)" by (simp add: pre nth_append nth_Cons' assms(1))
  have u9: "unat (pre ! 9) = length masked" unfolding n9 using lm by (rule unat_of_nat_byte)
  have uc: "uint c = calculate_checksum pre" unfolding c_def by (rule uint_checksum)
  have fr: "frame = pre @ [c, FRAME_END]" by (simp add: frame c_def)
  have lf: "length frame = length pre + 2" by (simp add: fr)
  consider (body) "i < length pre" | (last) "i = length pre + 1"
    using assms(3,4) lf by linarith
  then show ?thesis
  proof cases
    case body
    define pre' where "pre' = pre[i := x]"
    have upd: "frame[i := x] = pre' @ [c, FRAME_END]"
      using body by (simp add: fr pre'_def list_update_append1)
    have xp: "x \<noteq> pre ! i" using xneq body by (simp add: fr nth_append)
    have l': "10 \<le> length pre'" "length pre' = 10 + length masked" by (simp_all add: pre'_def lp)
    have p0: "pre' ! 0 = (if i = 0 then x else FRAME_START)"
      using lp by (simp add: pre'_def nth_list_update n0)
    have p7: "pre' ! 7 = (if i = 7 then x else FRAME_START)"
      using lp by (simp add: pre'_def nth_list_update n7)
    have p9: "pre' ! 9 = (if i = 9 then x else of_nat (length masked))"
      using lp by (simp add: pre'_def nth_list_update n9)
    have x9: "i = 9 \<Longrightarrow> length masked \<noteq> unat x"
      using xp u9 by (auto simp: word_unat_eq_iff)
    have x0: "i = 0 \<Longrightarrow> x \<noteq> FRAME_START" using xp n0 by auto
    have x7: "i = 7 \<Longrightarrow> x \<noteq> FRAME_START" using xp n7 by auto
    have cs: "calculate_checksum pre' \<noteq> calculate_checksum pre"
      unfolding pre'_def by (rule checksum_update [OF body xp])
    have il: "i \<noteq> length frame - 1" using body lf by simp
    show ?thesis
      unfolding x_def [symmetric] upd parse_response_snoc [OF l'(1)]
      using x0 x7 x9 cs il uc unat_of_nat_byte [OF lm]
      by (simp add: p0 p7 p9 l'(2))
  next
    case last
    have upd: "frame[i := x] = pre @ [c, x]" using last by (simp add: fr list_update_append)
    have "frame ! i = FRAME_END" using last by (simp add: fr nth_append)
    with xneq have xe: "x \<noteq> FRAME_END" by simp
    have l10: "10 \<le> length pre" using lp by simp
    have il: "i = length frame - 1" "i \<noteq> 0" using last lf by simp_all
    show ?thesis
      unfolding x_def [symmetric] upd parse_response_snoc [OF l10]
      using xe il by simp
  qed
qed

theorem bit_flip_detected_witness:
  "length [1, 0, 0, 0, 0, 0 :: byte] = 6 \<and>
   build_frame [1, 0, 0, 0, 0, 0] 0x11 (Some 0) None =
     Inr [0x68, 1, 0, 0, 0, 0, 0, 0x68, 0x11, 4, 0x33, 0x33, 0x33, 0x33, 0xB2, 0x16] \<and>
   parse_response ([0x68, 1, 0, 0, 0, 0, 0, 0x68, 0x11, 4, 0x33, 0x33, 0x33, 0x33, 0xB2, 0x16]
                     [10 := flip_bit 3 (0x33 :: byte)]) = Inl ChecksumMismatch"
proof -
  let ?F = "[0x68, 1, 0, 0, 0, 0, 0, 0x68, 0x11, 4, 0x33, 0x33, 0x33, 0x33, 0xB2, 0x16 :: byte]"
  have h1: "length [1, 0, 0, 0, 0, 0 :: byte] = 6" by simp
  have h2: "build_frame [1, 0, 0, 0, 0, 0] 0x11 (Some 0) None = Inr ?F"
    by (simp add: build_frame_def to_bytes4_def add_33h_def bytes_def calculate_checksum_def
        FRAME_START_def FRAME_END_def)
  have h3: "10 < length ?F" by simp
  have h4: "10 \<noteq> length ?F - 2" by simp
  have h5: "(3::nat) < 8" by simp
  from bit_flip_detected [OF h1 h2 h3 h4 h5] h1 h2 show ?thesis by simp
qed

section \<open>Order of the checks in the parser\<close>

text \<open>
  C3. \<open>_parse_response\<close> fails with FrameTooShort, InvalidFrameMarkers, InvalidSecondStart,
  LengthMismatch or ChecksumMismatch, checked in this order, and otherwise returns a parsed
  frame. The code departs from this at three inputs. A 13-byte response that passes all
  five checks and carries the data byte 0x00 makes \<open>_sub_33h\<close> raise, an error that is
  not in the list. In the copy of the parser in \<^verbatim>\<open>dlt645_read_1.py\<close> the length check is
  missing: a response that declares 5 data bytes and holds 3 raises IndexError, and a
  12-byte frame followed by two more bytes is accepted although its length byte says 0;
  the parser of \<^verbatim>\<open>dlt645_read.py\<close> answers LengthMismatch to both.
\<close>

theorem parse_response_departures:
  "parse_response [0x68, 0, 0, 0, 0, 0, 0, 0x68, 0x91, 1, 0x00, 0x62, 0x16] = Inl ByteRange \<and>
   parse_response_1 [0x68, 0, 0, 0, 0, 0, 0, 0x68, 0x91, 5, 0x33, 0x33, 0x33, 0x00, 0x16]
     = Inl IndexError \<and>
   parse_response [0x68, 0, 0, 0, 0, 0, 0, 0x68, 0x91, 5, 0x33, 0x33, 0x33, 0x00, 0x16]
     = Inl LengthMismatch \<and>
   parse_response_1 [0x68, 0, 0, 0, 0, 0, 0, 0x68, 0x91, 0, 0x61, 0x16, 0xFF, 0x16]
     = Inr \<lparr>p_address = [], p_control = 0x91, p_data_id = None, p_data = [],
            p_raw = [0x68, 0, 0, 0, 0, 0, 0, 0x68, 0x91, 0, 0x61, 0x16, 0xFF, 0x16]\<rparr> \<and>
   parse_response [0x68, 0, 0, 0, 0, 0, 0, 0x68, 0x91, 0, 0x61, 0x16, 0xFF, 0x16]
     = Inl LengthMismatch"
  by (simp add: parse_response_def parse_response_1_def unmask_and_split_def sub_33h_def
      bytes_def calculate_checksum_def FRAME_START_def FRAME_END_def)

theorem parse_response_departures_witness:
  "parse_response [0x68, 0, 0, 0, 0, 0, 0, 0x68, 0x91, 1, 0x00, 0x62, 0x16] = Inl ByteRange"
  by (rule parse_response_departures [THEN conjunct1])

section \<open>Address codec\<close>

lemma is_digit_props:
  assumes "is_digit c"
  shows "hex_val c = Some (digit_val c)" "digit_val c \<le> 9" "\<not> is_space c"
    "c \<noteq> CHR ''+''" "c \<noteq> CHR ''-''" "c \<noteq> CHR ''E''" "c \<noteq> CHR ''.''"
  using assms by (auto simp: is_digit_def hex_val_def digit_val_def is_space_def Let_def)

lemma int16_digits:
  assumes "is_digit c" "is_digit d"
  shows "int16 [c, d] = Inr (int (16 * digit_val c + digit_val d))"
  using is_digit_props [OF assms(1)] is_digit_props [OF assms(2)]
  by (simp add: int16_def strip_def Let_def)

lemma zfill_digits:
  assumes "list_all is_digit s" "length s \<le> 12"
  shows "zfill 12 s = replicate (12 - length s) CHR ''0'' @ s"
proof (cases s)
  case Nil then show ?thesis by (simp add: zfill_def)
next
  case (Cons c cs)
  with assms(1) have "c \<noteq> CHR ''+''" "c \<noteq> CHR ''-''" by (auto dest: is_digit_props)
  with Cons assms(2) show ?thesis by (auto simp: zfill_def)
qed

lemma length12:
  assumes "length p = 12"
  shows "p = [p ! 0, p ! 1, p ! 2, p ! 3, p ! 4, p ! 5, p ! 6, p ! 7, p ! 8, p ! 9, p ! 10, p ! 11]"
  by (rule nth_equalityI) (use assms in \<open>auto simp: nth_Cons' less_Suc_eq numeral_eq_Suc\<close>)

lemma format_address_loop_length:
  "format_address_loop addr idx acc = Inr bs \<Longrightarrow> length bs = length acc + length idx"
  by (induction idx arbitrary: acc) (auto split: sum.splits if_splits)

lemma format_address_length: "format_address s = Inr bs \<Longrightarrow> length bs = 6"
  unfolding format_address_def
  by (auto simp del: format_address_loop.simps split: sum.splits
      dest: format_address_loop_length)

lemma hex_val_props:
  assumes "hex_val c = Some a"
  shows "a < 16" "\<not> is_space c" "c \<noteq> CHR ''+''" "c \<noteq> CHR ''-''"
  using assms by (auto simp: hex_val_def is_space_def Let_def split: if_splits)

lemma int16_hex:
  assumes "hex_val c = Some a" "hex_val d = Some b"
  shows "int16 [c, d] = Inr (int (16 * a + b))"
  using hex_val_props [OF assms(1)] hex_val_props [OF assms(2)] assms
  by (simp add: int16_def strip_def Let_def)

lemma format_address_12:
  assumes "\<And>i::nat. i < 12 \<Longrightarrow> hex_val (c i) = Some (v i)"
  shows "format_address [c 0, c 1, c 2, c 3, c 4, c 5, c 6, c 7, c 8, c 9, c 10, c 11] =
     Inr (rev (map (\<lambda>i. of_nat (16 * v i + v (i + 1))) [0, 2, 4, 6, 8, 10]))"
proof -
  have i16: "int16 [c i, c (i + 1)] = Inr (int (16 * v i + v (i + 1)))" if "i < 11" for i :: nat
    using that by (intro int16_hex assms) simp_all
  have rg: "int (16 * v i + v (i + 1)) < 256" if "i < 11" for i :: nat
    using hex_val_props(1) [OF assms [of i]] hex_val_props(1) [OF assms [of "i + 1"]] that by simp
  show ?thesis
    using i16 [of 0] i16 [of 2] i16 [of 4] i16 [of 6] i16 [of 8] i16 [of 10]
      rg [of 0] rg [of 2] rg [of 4] rg [of 6] rg [of 8] rg [of 10]
    by (simp add: format_address_def zfill_def)
qed

text \<open>
  C8. For a string \<open>s\<close> of at most 12 decimal digits, \<open>_format_address\<close> pads it on the
  left with zeros to the 12 characters \<open>p\<close>, reads the pairs \<open>p[0:2]\<close>, \<open>p[2:4]\<close>, ...,
  \<open>p[10:12]\<close> in this order, each as the byte whose high nibble is the first digit and
  whose low nibble is the second, and returns the six bytes in reverse order. In
  particular the address 000000000001 gives the bytes 01 00 00 00 00 00.
\<close>

theorem format_address_digits:
  assumes "list_all is_digit s" and "length s \<le> 12"
    and "p = replicate (12 - length s) CHR ''0'' @ s"
  shows "format_address s =
           Inr (rev (map (\<lambda>i. of_nat (16 * digit_val (p ! i) + digit_val (p ! (i + 1))))
                      [0, 2, 4, 6, 8, 10])) \<and>
         format_address ''000000000001'' = Inr [0x01, 0x00, 0x00, 0x00, 0x00, 0x00]"
proof -
  have lp: "length p = 12" using assms(2,3) by simp
  have "is_digit CHR ''0''" by (simp add: is_digit_def)
  then have "list_all is_digit p" using assms(1,3) by (auto simp: list_all_iff)
  then have dg: "is_digit (p ! i)" if "i < 12" for i using that lp by (simp add: list_all_length)
  have hv: "hex_val (p ! i) = Some (digit_val (p ! i))" if "i < 12" for i
    using is_digit_props(1) [OF dg [OF that]] .
  have zp: "zfill 12 p = p" using lp by (simp add: zfill_def)
  have zs: "zfill 12 s = p" using zfill_digits [OF assms(1,2)] assms(3) by simp
  have fa: "format_address s = format_address p"
    unfolding format_address_def zp zs ..
  have "format_address p =
      Inr (rev (map (\<lambda>i. of_nat (16 * digit_val (p ! i) + digit_val (p ! (i + 1))))
                      [0, 2, 4, 6, 8, 10]))"
    by (subst length12 [OF lp]) (rule format_address_12 [of "\<lambda>i. p ! i", OF hv])
  moreover have "format_address ''000000000001'' = Inr [0x01, 0x00, 0x00, 0x00, 0x00, 0x00]"
    by (simp add: format_address_def zfill_def int16_def strip_def is_space_def hex_val_def)
  ultimately show ?thesis using fa by simp
qed

theorem format_address_digits_witness:
  "list_all is_digit ''123456'' \<and> length ''123456'' \<le> 12 \<and>
   format_address ''123456'' = Inr [0x56, 0x34, 0x12, 0x00, 0x00, 0x00]"
proof -
  have h1: "list_all is_digit ''123456''" by (simp add: is_digit_def)
  have h2: "length ''123456'' \<le> 12" by simp
  have h3: "''000000123456'' = replicate (12 - length ''123456'') CHR ''0'' @ ''123456''"
    by (simp add: eval_nat_numeral)
  from format_address_digits [OF h1 h2 h3] h1 h2 show ?thesis
    by (simp add: digit_val_def)
qed

lemma format_address_loop_take:
  "\<forall>i\<in>set idx. i + 2 \<le> 12 \<Longrightarrow>
     format_address_loop (take 12 addr) idx acc = format_address_loop addr idx acc"
proof (induction idx arbitrary: acc)
  case Nil
  then show ?case by simp
next
  case (Cons i idx)
  from Cons.prems have "min 2 (12 - i) = 2" by (auto simp: min_def)
  then have "take 2 (drop i (take 12 addr)) = take 2 (drop i addr)"
    by (simp add: drop_take)
  with Cons show ?case by (auto split: sum.splits)
qed

lemma format_address_loop_take12:
  "format_address_loop (take 12 addr) [0, 2, 4, 6, 8, 10] [] =
   format_address_loop addr [0, 2, 4, 6, 8, 10] []"
  by (rule format_address_loop_take) simp

text \<open>
  C10. For an address string longer than 12 characters no padding occurs and only the
  first 12 characters are read: the result is that of the first 12 characters alone, two
  strings longer than 12 characters that agree on their first 12 characters give the same
  result, and when these 12 characters are hexadecimal digits the result is a 6-byte
  address, not an error.
\<close>

theorem format_address_long:
  assumes "12 < length s"
  shows "zfill 12 s = s \<and>
         format_address s = format_address (take 12 s) \<and>
         (12 < length t \<and> take 12 t = take 12 s \<longrightarrow> format_address t = format_address s) \<and>
         (list_all (\<lambda>c. hex_val c \<noteq> None) (take 12 s) \<longrightarrow>
            (\<exists>bs. format_address s = Inr bs \<and> length bs = 6))"
proof -
  have z: "zfill 12 s = s" using assms by (simp add: zfill_def)
  have ft: "format_address u = format_address (take 12 u)" if "12 < length u" for u
    using that by (simp add: format_address_def zfill_def format_address_loop_take12
        del: format_address_loop.simps)
  have hx: "\<exists>bs. format_address s = Inr bs \<and> length bs = 6"
    if h: "list_all (\<lambda>c. hex_val c \<noteq> None) (take 12 s)"
  proof -
    define q where "q = take 12 s"
    have lq: "length q = 12" using assms by (simp add: q_def)
    have "hex_val (q ! i) = Some (the (hex_val (q ! i)))" if "i < 12" for i
      using h that lq by (auto simp: q_def [symmetric] list_all_length)
    from format_address_12 [of "\<lambda>i. q ! i", OF this]
    have "\<exists>bs. format_address q = Inr bs" by (subst length12 [OF lq]) blast
    then obtain bs where "format_address q = Inr bs" ..
    with ft [OF assms] format_address_length [of s bs] show ?thesis by (simp add: q_def)
  qed
  show ?thesis using z ft [OF assms] ft [of t] hx by auto
qed

theorem format_address_long_witness:
  "12 < length ''0000000000019'' \<and>
   format_address ''0000000000019'' = format_address ''000000000001'' \<and>
   format_address ''0000000000019'' = Inr [1, 0, 0, 0, 0, 0]"
proof -
  have h: "12 < length ''0000000000019''" by simp
  have e: "format_address ''000000000001'' = Inr [1, 0, 0, 0, 0, 0]"
    by (simp add: format_address_def zfill_def int16_def strip_def is_space_def hex_val_def)
  from format_address_long [OF h] h e show ?thesis by simp
qed

section \<open>Value decoders\<close>

lemma hex_digit_bcd:
  assumes "n \<le> 9"
  shows "is_digit (hex_digit n) \<and> digit_val (hex_digit n) = n"
proof -
  from assms have "n \<in> {0, 1, 2, 3, 4, 5, 6, 7, 8, 9}" by auto
  then show ?thesis
    by (auto simp: hex_digit_def is_digit_def digit_val_def)
qed

lemma hex_string_digits:
  "list_all is_bcd bs \<Longrightarrow> list_all is_digit (hex_string bs)"
  by (induction bs) (auto simp: hex_string_def format_02X_def is_bcd_def hex_digit_bcd)

lemma length_hex_string: "length (hex_string bs) = 2 * length bs"
  by (induction bs) (auto simp: hex_string_def format_02X_def)

lemma digits_val_hex_string:
  "list_all is_bcd bs \<Longrightarrow>
     digits_val acc (hex_string bs) =
       foldl (\<lambda>a d. 10 * a + d) acc (concat (map (\<lambda>b. [unat b div 16, unat b mod 16]) bs))"
  by (induction bs arbitrary: acc)
     (auto simp: hex_string_def format_02X_def is_bcd_def hex_digit_bcd)

lemma float_of_str_point:
  assumes "list_all is_digit ip" "list_all is_digit fp" "ip \<noteq> [] \<or> fp \<noteq> []"
  shows "float_of_str (ip @ CHR ''.'' # fp) = Inr (of_nat (digits_val 0 (ip @ fp)) / 10 ^ length fp)"
proof -
  define s where "s = ip @ CHR ''.'' # fp"
  have nE: "\<forall>c\<in>set s. c \<noteq> CHR ''E''"
    using assms(1,2) by (auto simp: s_def list_all_iff dest: is_digit_props(6))
  have nP: "\<forall>c\<in>set ip. c \<noteq> CHR ''.''"
    using assms(1) by (auto simp: list_all_iff dest: is_digit_props(7))
  have tw: "takeWhile (\<lambda>c. c \<noteq> CHR ''E'') s = s"
    using nE by (simp only: takeWhile_eq_all_conv)
  have dw: "dropWhile (\<lambda>c. c \<noteq> CHR ''E'') s = []"
    using nE by (simp only: dropWhile_eq_Nil_conv)
  have t2: "takeWhile (\<lambda>c. c \<noteq> CHR ''.'') s = ip"
    using nP by (simp add: s_def takeWhile_append2)
  have d2: "dropWhile (\<lambda>c. c \<noteq> CHR ''.'') s = CHR ''.'' # fp"
    using nP by (simp add: s_def dropWhile_append2)
  have "float_of_str s = Inr (of_nat (digits_val 0 (ip @ fp)) / 10 ^ length fp)"
    using assms by (auto simp: float_of_str_def Let_def tw dw t2 d2)
  then show ?thesis by (simp only: s_def)
qed

lemma float_of_str_digits:
  assumes "list_all is_digit ds" "ds \<noteq> []"
  shows "float_of_str ds = Inr (of_nat (digits_val 0 ds))"
proof -
  have nE: "\<forall>c\<in>set ds. c \<noteq> CHR ''E''"
    using assms(1) by (auto simp: list_all_iff dest: is_digit_props(6))
  have nP: "\<forall>c\<in>set ds. c \<noteq> CHR ''.''"
    using assms(1) by (auto simp: list_all_iff dest: is_digit_props(7))
  have tw: "takeWhile (\<lambda>c. c \<noteq> CHR ''E'') ds = ds"
    using nE by (simp only: takeWhile_eq_all_conv)
  have dw: "dropWhile (\<lambda>c. c \<noteq> CHR ''E'') ds = []"
    using nE by (simp only: dropWhile_eq_Nil_conv)
  have t2: "takeWhile (\<lambda>c. c \<noteq> CHR ''.'') ds = ds"
    using nP by (simp only: takeWhile_eq_all_conv)
  have d2: "dropWhile (\<lambda>c. c \<noteq> CHR ''.'') ds = []"
    using nP by (simp only: dropWhile_eq_Nil_conv)
  show ?thesis
    using assms by (auto simp: float_of_str_def Let_def tw dw t2 d2)
qed

lemma hex_digit_alphabet: "n < 16 \<Longrightarrow> hex_digit n \<in> set ''0123456789ABCDEF''"
proof -
  assume "n < 16"
  then have "n \<in> {0, 1, 2, 3, 4, 5, 6, 7, 8, 9, 10, 11, 12, 13, 14, 15}" by simp arith
  then show ?thesis by (auto simp: hex_digit_def)
qed

lemma decoder_alphabet: "set (hex_string bs) \<subseteq> set ''0123456789ABCDEF''"
proof -
  define S where "S = set ''0123456789ABCDEF''"
  have "unat b < 256" for b :: byte
    using unsigned_less [of b, where 'a = nat] by simp
  then have "unat b div 16 < 16" for b :: byte
    by (simp add: div_less_iff_less_mult [of 16] )
  then have "hex_digit (unat b div 16) \<in> S \<and> hex_digit (unat b mod 16) \<in> S" for b :: byte
    unfolding S_def by (intro conjI hex_digit_alphabet) simp_all
  then have "set (hex_string bs) \<subseteq> S"
    by (auto simp: hex_string_def format_02X_def)
  then show ?thesis by (simp only: S_def)
qed

text \<open>
  C5 as the claim states it: the generic decoder returns none when the digit count is at
  most decimalPlaces. It fails for the single byte 0x12 (two digits): with two decimal
  places the code builds \<open>.12\<close> and returns 0.12, and with three decimal places its guard
  \<open>len(value_str) >= decimal_places\<close> skips the decimal point and it returns 12.
\<close>

theorem decode_generic_bcd_few_digits:
  "2 * int (length [0x12 :: byte]) \<le> 2 \<and> decode_generic_bcd [0x12] 2 = Some (12 / 100) \<and>
   2 * int (length [0x12 :: byte]) \<le> 3 \<and> decode_generic_bcd [0x12] 3 = Some 12"
  by (simp add: decode_generic_bcd_def hex_string_def format_02X_def hex_digit_def
      insert_point_def try_float_def float_of_str_def is_digit_def digit_val_def)

text \<open>
  C5, amended. The generic decoder returns none for an empty byte sequence. For a
  non-empty sequence whose nibbles are all decimal digits it returns the number read from
  the bytes in reverse order, each rendered as its two BCD digits: with the decimal point
  before the last decimalPlaces digits when 0 < decimalPlaces and decimalPlaces is at most
  the digit count (a pure fraction when they are equal), and as a whole number, with no
  decimal point, when decimalPlaces is 0, negative, or larger than the digit count.
\<close>

theorem decode_generic_bcd_value:
  assumes "data \<noteq> []" and "list_all is_bcd data"
  shows "decode_generic_bcd [] decimal_places = None \<and>
         decode_generic_bcd data decimal_places =
           Some (of_nat (spec_decimal (spec_bcd_digits data)) /
                 10 ^ (if 0 < decimal_places \<and> decimal_places \<le> 2 * int (length data)
                       then nat decimal_places else 0))"
proof -
  define vs where "vs = hex_string (rev data)"
  have lv: "length vs = 2 * length data" by (simp add: vs_def length_hex_string)
  have ne: "vs \<noteq> []" using lv assms(1) by auto
  have bcd: "list_all is_bcd (rev data)" using assms(2) by (simp add: list_all_iff)
  have dg: "list_all is_digit vs" unfolding vs_def by (rule hex_string_digits [OF bcd])
  have val: "digits_val 0 vs = spec_decimal (spec_bcd_digits data)"
    unfolding vs_def spec_decimal_def spec_bcd_digits_def by (rule digits_val_hex_string [OF bcd])
  have np: "vs \<noteq> ''.''" using dg by (auto simp: is_digit_def)
  have e: "decode_generic_bcd [] decimal_places = None" by (simp add: decode_generic_bcd_def)
  show ?thesis
  proof (cases "0 < decimal_places \<and> decimal_places \<le> 2 * int (length data)")
    case True
    define n where "n = nat decimal_places"
    have n: "0 < n" "n \<le> length vs" using True lv by (simp_all add: n_def nat_le_iff)
    define ip where "ip = take (length vs - n) vs"
    define fp where "fp = drop (length vs - n) vs"
    have ipfp: "ip @ fp = vs" by (simp add: ip_def fp_def)
    have lf: "length fp = n" using n by (simp add: fp_def)
    have d: "list_all is_digit ip" "list_all is_digit fp"
      using dg by (auto simp: ip_def fp_def list_all_iff dest: in_set_takeD in_set_dropD)
    have nn: "ip \<noteq> [] \<or> fp \<noteq> []" using ipfp ne by auto
    have ins: "insert_point n vs = ip @ CHR ''.'' # fp"
      using n by (simp add: insert_point_def ip_def fp_def)
    have fl: "float_of_str (ip @ CHR ''.'' # fp) = Inr (of_nat (digits_val 0 vs) / 10 ^ n)"
      using float_of_str_point [OF d nn] by (simp add: ipfp lf)
    have nd: "ip @ CHR ''.'' # fp \<noteq> ''.''" using nn by (auto simp: append_eq_Cons_conv)
    have "decode_generic_bcd data decimal_places = Some (of_nat (digits_val 0 vs) / 10 ^ n)"
      using True assms(1) lv nd
      by (simp add: decode_generic_bcd_def vs_def [symmetric] n_def [symmetric] ins fl
          try_float_def Let_def)
    with True e show ?thesis by (simp add: val n_def)
  next
    case False
    have "decode_generic_bcd data decimal_places = Some (of_nat (digits_val 0 vs))"
      using False assms(1) lv ne np
      by (auto simp: decode_generic_bcd_def vs_def [symmetric] float_of_str_digits [OF dg ne]
          try_float_def Let_def)
    with False e show ?thesis by (auto simp: val)
  qed
qed

theorem decode_generic_bcd_value_witness:
  "[0x30, 0x22 :: byte] \<noteq> [] \<and> list_all is_bcd [0x30, 0x22] \<and>
   decode_generic_bcd [0x30, 0x22] 1 = Some 223"
proof -
  have h1: "[0x30, 0x22 :: byte] \<noteq> []" by simp
  have h2: "list_all is_bcd [0x30, 0x22]" by (simp add: is_bcd_def)
  from decode_generic_bcd_value [OF h1 h2, of 1] h1 h2 show ?thesis
    by (simp add: spec_decimal_def spec_bcd_digits_def)
qed

text \<open>
  C6. Every value decoder returns a number or none and never raises; a payload that is
  too short or contains non-BCD nibbles yields none. The decoders do not raise (every
  exception of \<open>float\<close> is caught), and a short payload yields none, but \<open>float\<close> reads the
  hexadecimal digit E as an exponent mark: the current payload E5 31 12 becomes the
  string \<open>123.1E5\<close> and decodes to 12310000, the energy payload E7 56 34 12 becomes
  \<open>123456.E7\<close> and decodes to 1234560000000, and the generic decoder turns E5 01 into
  \<open>01.E5\<close>, that is 100000.
\<close>

theorem decode_exponent_nibble:
  "decode_current [0xE5, 0x31, 0x12] = Some 12310000 \<and>
   decode_energy [0xE7, 0x56, 0x34, 0x12] = Some 1234560000000 \<and>
   decode_generic_bcd [0xE5, 0x01] 2 = Some 100000"
  by (simp add: decode_current_def decode_energy_def decode_generic_bcd_def hex_string_def
      format_02X_def hex_digit_def insert_point_def try_float_def float_of_str_def
      is_digit_def digit_val_def)

lemma decode_short_payload:
  "length data < 4 \<Longrightarrow> decode_energy data = None"
  "length data < 2 \<Longrightarrow> decode_voltage data = None"
  "length data < 3 \<Longrightarrow> decode_current data = None"
  "length data < 3 \<Longrightarrow> decode_power data = None"
  "decode_generic_bcd [] decimal_places = None"
  by (simp_all add: decode_energy_def decode_voltage_def decode_current_def decode_power_def
      decode_generic_bcd_def)

section \<open>Transport: retry\<close>

lemma exchange_eq:
  "exchange frame s =
     (let entry = (case incoming s of [] \<Rightarrow> Delivers [] | e # rest \<Rightarrow> e)
      in (case entry of Delivers bs \<Rightarrow> Some bs | Raises f \<Rightarrow> None,
          s\<lparr>incoming := tl (incoming s), events := events s @ attempt_trace frame entry\<rparr>))"
proof -
  define entry where "entry = (case incoming s of [] \<Rightarrow> Delivers [] | e # rest \<Rightarrow> e)"
  show ?thesis
    unfolding exchange_def entry_def [symmetric] Let_def
  proof (cases entry)
    case (Delivers bs)
    then show "(case entry of Delivers bs \<Rightarrow> Some bs | Raises f \<Rightarrow> None,
      run [PortOp AtResetInput ResetInput, PortOp AtResetOutput ResetOutput, Wait 300,
           PortOp AtWriteWakeup (Write wakeup), Wait 100, PortOp AtWriteFrame (Write frame), Wait 600]
        (case entry of Delivers bs \<Rightarrow> None | Raises f \<Rightarrow> Some f) (s\<lparr>incoming := tl (incoming s)\<rparr>)) =
      (case entry of Delivers bs \<Rightarrow> Some bs | Raises f \<Rightarrow> None,
       s\<lparr>incoming := tl (incoming s), events := events s @ attempt_trace frame entry\<rparr>)"
      by (simp add: emit_def wakeup_def)
  next
    case (Raises f)
    then show "(case entry of Delivers bs \<Rightarrow> Some bs | Raises f \<Rightarrow> None,
      run [PortOp AtResetInput ResetInput, PortOp AtResetOutput ResetOutput, Wait 300,
           PortOp AtWriteWakeup (Write wakeup), Wait 100, PortOp AtWriteFrame (Write frame), Wait 600]
        (case entry of Delivers bs \<Rightarrow> None | Raises f \<Rightarrow> Some f) (s\<lparr>incoming := tl (incoming s)\<rparr>)) =
      (case entry of Delivers bs \<Rightarrow> Some bs | Raises f \<Rightarrow> None,
       s\<lparr>incoming := tl (incoming s), events := events s @ attempt_trace frame entry\<rparr>)"
      by (cases f) (simp_all add: emit_def wakeup_def)
  qed
qed


lemma send_frame_loop_fruitless:
  assumes "a + k < retries" and "k \<le> length (incoming s)"
    and "\<forall>e\<in>set (take k (incoming s)). \<forall>bs. e = Delivers bs \<longrightarrow> bs = []"
  shows "send_frame_loop frame retries [a..<retries] s =
         send_frame_loop frame retries [a + k..<retries]
           (s\<lparr>incoming := drop k (incoming s),
              events := events s @
                concat (map (\<lambda>e. attempt_trace frame e @ [Sleep 1000]) (take k (incoming s)))\<rparr>)"
  using assms
proof (induction k arbitrary: a s)
  case 0
  then show ?case by simp
next
  case (Suc k)
  from Suc.prems(2) obtain e rest where inc: "incoming s = e # rest" by (cases "incoming s") auto
  define s2 where "s2 = s\<lparr>incoming := rest, events := events s @ attempt_trace frame e @ [Sleep 1000]\<rparr>"
  have fr: "\<forall>bs. e = Delivers bs \<longrightarrow> bs = []" using Suc.prems(3) inc by simp
  have up: "[a..<retries] = a # [Suc a..<retries]" using Suc.prems(1) by (simp add: upt_conv_Cons)
  have a1: "a + 1 < retries" using Suc.prems(1) by simp
  have step: "send_frame_loop frame retries [a..<retries] s =
              send_frame_loop frame retries [Suc a..<retries] s2"
    using fr a1 by (cases e) (simp_all add: up exchange_eq inc s2_def emit_def)
  have p1: "Suc a + k < retries" using Suc.prems(1) by simp
  have p2: "k \<le> length (incoming s2)" using Suc.prems(2) inc by (simp add: s2_def)
  have p3: "\<forall>e\<in>set (take k (incoming s2)). \<forall>bs. e = Delivers bs \<longrightarrow> bs = []"
    using Suc.prems(3) inc by (simp add: s2_def)
  have idx: "a + Suc k = Suc a + k" by simp
  show ?case
    unfolding step idx Suc.IH [OF p1 p2 p3]
    by (simp add: s2_def inc)
qed


lemma send_frame_final:
  assumes "is_open s" and "n < retries" and "n < length (incoming s)"
    and "\<forall>e\<in>set (take n (incoming s)). \<forall>bs. e = Delivers bs \<longrightarrow> bs = []"
    and "(\<exists>bs. incoming s ! n = Delivers bs \<and> bs \<noteq> []) \<or> Suc n = retries"
  shows "send_frame frame retries s =
           (case incoming s ! n of
              Delivers bs \<Rightarrow> if bs = [] then Inl NoResponse else Inr bs
            | Raises f \<Rightarrow> Inl SerialException,
            s\<lparr>incoming := drop (Suc n) (incoming s),
              events := events s @
                concat (map (\<lambda>e. attempt_trace frame e @ [Sleep 1000]) (take n (incoming s))) @
                attempt_trace frame (incoming s ! n)\<rparr>)"
proof -
  define s' where "s' = s\<lparr>incoming := drop n (incoming s),
              events := events s @
                concat (map (\<lambda>e. attempt_trace frame e @ [Sleep 1000]) (take n (incoming s)))\<rparr>"
  have "0 + n < retries" "n \<le> length (incoming s)" using assms(2,3) by simp_all
  from send_frame_loop_fruitless [OF this assms(4), of frame]
  have lp: "send_frame_loop frame retries [0..<retries] s =
            send_frame_loop frame retries [n..<retries] s'"
    by (simp add: s'_def)
  have sf: "send_frame frame retries s = send_frame_loop frame retries [n..<retries] s'"
    using assms(1) lp by (simp add: send_frame_def)
  have up: "[n..<retries] = n # [Suc n..<retries]" using assms(2) by (simp add: upt_conv_Cons)
  have inc: "incoming s' = incoming s ! n # drop (Suc n) (incoming s)"
    using Cons_nth_drop_Suc [OF assms(3)] by (simp add: s'_def)
  define s1 where "s1 = s\<lparr>incoming := drop (Suc n) (incoming s),
              events := events s @
                concat (map (\<lambda>e. attempt_trace frame e @ [Sleep 1000]) (take n (incoming s))) @
                attempt_trace frame (incoming s ! n)\<rparr>"
  have s1: "s'\<lparr>incoming := tl (incoming s'),
               events := events s' @ attempt_trace frame (incoming s ! n)\<rparr> = s1"
    unfolding inc by (simp add: s'_def s1_def)
  have ex: "exchange frame s' =
              (case incoming s ! n of Delivers bs \<Rightarrow> Some bs | Raises f \<Rightarrow> None, s1)"
    unfolding exchange_eq s1 [symmetric] by (simp add: inc Let_def)
  show ?thesis
  proof (cases "incoming s ! n")
    case (Delivers bs)
    show ?thesis
    proof (cases "bs = []")
      case True
      with Delivers assms(5) have last: "Suc n = retries" by auto
      then have "[Suc n..<retries] = []" "\<not> n + 1 < retries" by simp_all
      with True Delivers show ?thesis
        unfolding sf up s1_def [symmetric] by (simp add: ex)
    next
      case False
      with Delivers show ?thesis
        unfolding sf up s1_def [symmetric] by (simp add: ex)
    qed
  next
    case (Raises f)
    with assms(5) have last: "\<not> n + 1 < retries" by auto
    with Raises show ?thesis
      unfolding sf up s1_def [symmetric] by (simp add: ex)
  qed
qed

lemma read_data_once:
  assumes "is_open s" and "build_frame_1 address CMD_READ_DATA data_id = Inr request"
    and "incoming s = e # rest"
  shows "read_data address data_id s =
           (let outcome = (case e of
                             Delivers bs \<Rightarrow>
                               if bs = [] then None
                               else (case parse_response_1 bs of
                                       Inl err \<Rightarrow> None | Inr result \<Rightarrow> Some result)
                           | Raises f \<Rightarrow> None)
            in (Inr outcome,
                s\<lparr>incoming := rest,
                  events := events s @ attempt_trace request e @
                            [Sleep (if outcome = None then 500 else 1500)]\<rparr>))"
proof -
  have h: "(0::nat) < 1" "0 < length (incoming s)"
    "\<forall>e\<in>set (take 0 (incoming s)). \<forall>bs. e = Delivers bs \<longrightarrow> bs = []"
    "(\<exists>bs. incoming s ! 0 = Delivers bs \<and> bs \<noteq> []) \<or> Suc 0 = 1"
    using assms(3) by simp_all
  note sf = send_frame_final [OF assms(1) h, of request]
  show ?thesis
    unfolding read_data_def assms(2) using sf assms(3)
    by (auto simp: emit_def Let_def split: attempt.splits sum.splits)
qed

text \<open>
  C7 as the claim states it: the exchange is repeated on NoResponse or on a parse failure.
  It fails for a parse failure: with three attempts allowed and a line that delivers the
  single byte 00 and then a well-formed response, \<open>_send_frame\<close> returns the byte 00 after
  one sequence and leaves the second response unread; the byte does not parse, and
  \<open>read_data\<close> returns none after that one sequence and a pause of 0.5 s.
\<close>

theorem parse_failure_not_retried:
  "send_frame [0x68, 1, 0, 0, 0, 0, 0, 0x68, 0x11, 4, 0x33, 0x33, 0x33, 0x33, 0xB2, 0x16] 3
     \<lparr>is_open = True, incoming = [Delivers [0x00], Delivers [0x68, 1, 0, 0, 0, 0, 0, 0x68, 0x91, 4, 0x33, 0x33, 0x33, 0x33, 0x32, 0x16]], events = []\<rparr> =
     (Inr [0x00],
      \<lparr>is_open = True, incoming = [Delivers [0x68, 1, 0, 0, 0, 0, 0, 0x68, 0x91, 4, 0x33, 0x33, 0x33, 0x33, 0x32, 0x16]],
       events = [ResetInput, ResetOutput, Sleep 300, Write [0xFE, 0xFE, 0xFE, 0xFE], Sleep 100,
              Write [0x68, 1, 0, 0, 0, 0, 0, 0x68, 0x11, 4, 0x33, 0x33, 0x33, 0x33, 0xB2, 0x16], Sleep 600]\<rparr>) \<and>
   parse_response_1 [0x00] = Inl FrameTooShort \<and>
   parse_response_1 [0x68, 1, 0, 0, 0, 0, 0, 0x68, 0x91, 4, 0x33, 0x33, 0x33, 0x33, 0x32, 0x16] =
     Inr \<lparr>p_address = [], p_control = 0x91, p_data_id = Some 0, p_data = [], p_raw = [0x68, 1, 0, 0, 0, 0, 0, 0x68, 0x91, 4, 0x33, 0x33, 0x33, 0x33, 0x32, 0x16]\<rparr> \<and>
   read_data [1, 0, 0, 0, 0, 0] 0
     \<lparr>is_open = True, incoming = [Delivers [0x00], Delivers [0x68, 1, 0, 0, 0, 0, 0, 0x68, 0x91, 4, 0x33, 0x33, 0x33, 0x33, 0x32, 0x16]], events = []\<rparr> =
     (Inr None,
      \<lparr>is_open = True, incoming = [Delivers [0x68, 1, 0, 0, 0, 0, 0, 0x68, 0x91, 4, 0x33, 0x33, 0x33, 0x33, 0x32, 0x16]],
       events = [ResetInput, ResetOutput, Sleep 300, Write [0xFE, 0xFE, 0xFE, 0xFE], Sleep 100,
              Write [0x68, 1, 0, 0, 0, 0, 0, 0x68, 0x11, 4, 0x33, 0x33, 0x33, 0x33, 0xB2, 0x16], Sleep 600] @ [Sleep 500]\<rparr>)"
  by (simp add: send_frame_def upt_rec [of 0] upt_rec [of "Suc 0"] upt_rec [of 1] upt_rec [of 2]
      exchange_def emit_def wakeup_def
      parse_response_1_def unmask_and_split_def sub_33h_def bytes_def
      calculate_checksum_def FRAME_START_def FRAME_END_def read_data_def build_frame_1_def
      to_bytes4_def add_33h_def CMD_READ_DATA_def)

text \<open>
  C7, amended. With the port open, \<open>_send_frame(frame, retries)\<close> makes the
  wake/send/accumulate sequence (reset both buffers, 0.3 s, write FE FE FE FE, 0.1 s, write
  the frame, 0.6 s, accumulate) once per attempt, for at most \<open>retries\<close> attempts. An
  attempt that gathers no byte, or in which the port raises, is followed by a pause of 1 s
  and another attempt as long as attempts remain. The attempt \<open>n\<close> that ends the exchange
  is the first one that gathers a non-empty response, or the last allowed one: a non-empty
  response is returned as received, parsable or not; if the last allowed attempt gathers
  nothing, NoResponse is raised, and if the port raises in it, that exception is raised
  again; no data is returned in either case. With no attempt allowed NoResponse is raised
  at once. A parse failure is not retried: \<open>read_data\<close> calls \<open>_send_frame\<close> with its
  default of one attempt, and returns none after that single attempt on silence, on a port
  exception and on a parse failure (each followed by 0.5 s), and the parsed frame
  otherwise (followed by 1.5 s).
\<close>

theorem send_frame_retry:
  assumes "is_open s"
  shows "(n < retries \<and> n < length (incoming s) \<and>
          (\<forall>e\<in>set (take n (incoming s)). \<forall>bs. e = Delivers bs \<longrightarrow> bs = []) \<and>
          ((\<exists>bs. incoming s ! n = Delivers bs \<and> bs \<noteq> []) \<or> Suc n = retries) \<longrightarrow>
            send_frame frame retries s =
              (case incoming s ! n of
                 Delivers bs \<Rightarrow> if bs = [] then Inl NoResponse else Inr bs
               | Raises f \<Rightarrow> Inl SerialException,
               s\<lparr>incoming := drop (Suc n) (incoming s),
                 events := events s @
                   concat (map (\<lambda>e. attempt_trace frame e @ [Sleep 1000]) (take n (incoming s))) @
                   attempt_trace frame (incoming s ! n)\<rparr>)) \<and>
         send_frame frame 0 s = (Inl NoResponse, s) \<and>
         (build_frame_1 address CMD_READ_DATA data_id = Inr request \<and> incoming s = e # rest \<longrightarrow>
            read_data address data_id s =
              (let outcome = (case e of
                                Delivers bs \<Rightarrow>
                                  if bs = [] then None
                                  else (case parse_response_1 bs of
                                          Inl err \<Rightarrow> None | Inr result \<Rightarrow> Some result)
                              | Raises f \<Rightarrow> None)
               in (Inr outcome,
                   s\<lparr>incoming := rest,
                     events := events s @ attempt_trace request e @
                               [Sleep (if outcome = None then 500 else 1500)]\<rparr>)))"
proof (intro conjI impI)
  assume "n < retries \<and> n < length (incoming s) \<and>
          (\<forall>e\<in>set (take n (incoming s)). \<forall>bs. e = Delivers bs \<longrightarrow> bs = []) \<and>
          ((\<exists>bs. incoming s ! n = Delivers bs \<and> bs \<noteq> []) \<or> Suc n = retries)"
  then show "send_frame frame retries s =
              (case incoming s ! n of
                 Delivers bs \<Rightarrow> if bs = [] then Inl NoResponse else Inr bs
               | Raises f \<Rightarrow> Inl SerialException,
               s\<lparr>incoming := drop (Suc n) (incoming s),
                 events := events s @
                   concat (map (\<lambda>e. attempt_trace frame e @ [Sleep 1000]) (take n (incoming s))) @
                   attempt_trace frame (incoming s ! n)\<rparr>)"
    using send_frame_final [OF assms] by blast
next
  show "send_frame frame 0 s = (Inl NoResponse, s)" using assms by (simp add: send_frame_def)
next
  assume "build_frame_1 address CMD_READ_DATA data_id = Inr request \<and> incoming s = e # rest"
  then show "read_data address data_id s =
              (let outcome = (case e of
                                Delivers bs \<Rightarrow>
                                  if bs = [] then None
                                  else (case parse_response_1 bs of
                                          Inl err \<Rightarrow> None | Inr result \<Rightarrow> Some result)
                              | Raises f \<Rightarrow> None)
               in (Inr outcome,
                   s\<lparr>incoming := rest,
                     events := events s @ attempt_trace request e @
                               [Sleep (if outcome = None then 500 else 1500)]\<rparr>))"
    using read_data_once [OF assms] by blast
qed

theorem send_frame_retry_witness:
  "send_frame [0x11] 3
     \<lparr>is_open = True,
      incoming = [Delivers [], Raises AtWriteFrame, Delivers [0x00], Delivers [0x01]],
      events = []\<rparr> =
     (Inr [0x00],
      \<lparr>is_open = True, incoming = [Delivers [0x01]],
       events = [ResetInput, ResetOutput, Sleep 300, Write [0xFE, 0xFE, 0xFE, 0xFE], Sleep 100,
              Write [0x11], Sleep 600] @ [Sleep 1000] @
                [ResetInput, ResetOutput, Sleep 300, Write [0xFE, 0xFE, 0xFE, 0xFE], Sleep 100] @
                [Sleep 1000] @
                [ResetInput, ResetOutput, Sleep 300, Write [0xFE, 0xFE, 0xFE, 0xFE], Sleep 100,
              Write [0x11], Sleep 600]\<rparr>) \<and>
   send_frame [0x11] 2
     \<lparr>is_open = True, incoming = [Delivers [], Raises AtResetOutput], events = []\<rparr> =
     (Inl SerialException,
      \<lparr>is_open = True, incoming = [],
       events = [ResetInput, ResetOutput, Sleep 300, Write [0xFE, 0xFE, 0xFE, 0xFE], Sleep 100,
              Write [0x11], Sleep 600] @ [Sleep 1000] @ [ResetInput]\<rparr>) \<and>
   send_frame [0x11] 2
     \<lparr>is_open = True, incoming = [Raises AtRead, Delivers []], events = []\<rparr> =
     (Inl NoResponse,
      \<lparr>is_open = True, incoming = [],
       events = [ResetInput, ResetOutput, Sleep 300, Write [0xFE, 0xFE, 0xFE, 0xFE], Sleep 100,
              Write [0x11], Sleep 600] @ [Sleep 1000] @ [ResetInput, ResetOutput, Sleep 300, Write [0xFE, 0xFE, 0xFE, 0xFE], Sleep 100,
              Write [0x11], Sleep 600]\<rparr>) \<and>
   build_frame_1 [1, 0, 0, 0, 0, 0] CMD_READ_DATA 0 = Inr [0x68, 1, 0, 0, 0, 0, 0, 0x68, 0x11, 4, 0x33, 0x33, 0x33, 0x33, 0xB2, 0x16] \<and>
   read_data [1, 0, 0, 0, 0, 0] 0
     \<lparr>is_open = True, incoming = [Delivers [], Delivers [0x68, 1, 0, 0, 0, 0, 0, 0x68, 0x91, 4, 0x33, 0x33, 0x33, 0x33, 0x32, 0x16]], events = []\<rparr> =
     (Inr None,
      \<lparr>is_open = True, incoming = [Delivers [0x68, 1, 0, 0, 0, 0, 0, 0x68, 0x91, 4, 0x33, 0x33, 0x33, 0x33, 0x32, 0x16]],
       events = [ResetInput, ResetOutput, Sleep 300, Write [0xFE, 0xFE, 0xFE, 0xFE], Sleep 100,
              Write [0x68, 1, 0, 0, 0, 0, 0, 0x68, 0x11, 4, 0x33, 0x33, 0x33, 0x33, 0xB2, 0x16], Sleep 600] @ [Sleep 500]\<rparr>)"
proof -
  let ?a = "\<lparr>is_open = True,
      incoming = [Delivers [], Raises AtWriteFrame, Delivers [0x00], Delivers [0x01]],
      events = []\<rparr>"
  let ?b = "\<lparr>is_open = True, incoming = [Delivers [], Raises AtResetOutput], events = []\<rparr>"
  let ?c = "\<lparr>is_open = True, incoming = [Raises AtRead, Delivers []], events = []\<rparr>"
  let ?d = "\<lparr>is_open = True, incoming = [Delivers [], Delivers [0x68, 1, 0, 0, 0, 0, 0, 0x68, 0x91, 4, 0x33, 0x33, 0x33, 0x33, 0x32, 0x16]], events = []\<rparr>"
  have b: "build_frame_1 [1, 0, 0, 0, 0, 0] CMD_READ_DATA 0 = Inr [0x68, 1, 0, 0, 0, 0, 0, 0x68, 0x11, 4, 0x33, 0x33, 0x33, 0x33, 0xB2, 0x16]"
    by (simp add: build_frame_1_def to_bytes4_def add_33h_def bytes_def calculate_checksum_def
        FRAME_START_def FRAME_END_def CMD_READ_DATA_def)
  have ha: "(2::nat) < 3 \<and> 2 < length (incoming ?a) \<and>
          (\<forall>e\<in>set (take 2 (incoming ?a)). \<forall>bs. e = Delivers bs \<longrightarrow> bs = []) \<and>
          ((\<exists>bs. incoming ?a ! 2 = Delivers bs \<and> bs \<noteq> []) \<or> Suc 2 = 3)"
    by simp
  have hb: "(1::nat) < 2 \<and> 1 < length (incoming ?b) \<and>
          (\<forall>e\<in>set (take 1 (incoming ?b)). \<forall>bs. e = Delivers bs \<longrightarrow> bs = []) \<and>
          ((\<exists>bs. incoming ?b ! 1 = Delivers bs \<and> bs \<noteq> []) \<or> Suc 1 = 2)"
    by simp
  have hc: "(1::nat) < 2 \<and> 1 < length (incoming ?c) \<and>
          (\<forall>e\<in>set (take 1 (incoming ?c)). \<forall>bs. e = Delivers bs \<longrightarrow> bs = []) \<and>
          ((\<exists>bs. incoming ?c ! 1 = Delivers bs \<and> bs \<noteq> []) \<or> Suc 1 = 2)"
    by simp
  have hd: "build_frame_1 [1, 0, 0, 0, 0, 0] CMD_READ_DATA 0 = Inr [0x68, 1, 0, 0, 0, 0, 0, 0x68, 0x11, 4, 0x33, 0x33, 0x33, 0x33, 0xB2, 0x16] \<and>
            incoming ?d = Delivers [] # [Delivers [0x68, 1, 0, 0, 0, 0, 0, 0x68, 0x91, 4, 0x33, 0x33, 0x33, 0x33, 0x32, 0x16]]"
    using b by simp
  have o: "is_open ?a" "is_open ?b" "is_open ?c" "is_open ?d" by simp_all
  have ra: "send_frame [0x11] 3 ?a =
      (case incoming ?a ! 2 of
         Delivers bs \<Rightarrow> if bs = [] then Inl NoResponse else Inr bs
       | Raises f \<Rightarrow> Inl SerialException,
       ?a\<lparr>incoming := drop (Suc 2) (incoming ?a),
          events := events ?a @
            concat (map (\<lambda>e. attempt_trace [0x11] e @ [Sleep 1000]) (take 2 (incoming ?a))) @
            attempt_trace [0x11] (incoming ?a ! 2)\<rparr>)"
    using send_frame_retry [OF o(1), where n = 2 and retries = 3 and frame = "[0x11]"] ha
    by blast
  have rb: "send_frame [0x11] 2 ?b =
      (case incoming ?b ! 1 of
         Delivers bs \<Rightarrow> if bs = [] then Inl NoResponse else Inr bs
       | Raises f \<Rightarrow> Inl SerialException,
       ?b\<lparr>incoming := drop (Suc 1) (incoming ?b),
          events := events ?b @
            concat (map (\<lambda>e. attempt_trace [0x11] e @ [Sleep 1000]) (take 1 (incoming ?b))) @
            attempt_trace [0x11] (incoming ?b ! 1)\<rparr>)"
    using send_frame_retry [OF o(2), where n = 1 and retries = 2 and frame = "[0x11]"] hb
    by blast
  have rc: "send_frame [0x11] 2 ?c =
      (case incoming ?c ! 1 of
         Delivers bs \<Rightarrow> if bs = [] then Inl NoResponse else Inr bs
       | Raises f \<Rightarrow> Inl SerialException,
       ?c\<lparr>incoming := drop (Suc 1) (incoming ?c),
          events := events ?c @
            concat (map (\<lambda>e. attempt_trace [0x11] e @ [Sleep 1000]) (take 1 (incoming ?c))) @
            attempt_trace [0x11] (incoming ?c ! 1)\<rparr>)"
    using send_frame_retry [OF o(3), where n = 1 and retries = 2 and frame = "[0x11]"] hc
    by blast
  have rd: "read_data [1, 0, 0, 0, 0, 0] 0 ?d =
      (let outcome = (case Delivers [] of
                        Delivers bs \<Rightarrow>
                          if bs = [] then None
                          else (case parse_response_1 bs of
                                  Inl err \<Rightarrow> None | Inr result \<Rightarrow> Some result)
                      | Raises f \<Rightarrow> None)
       in (Inr outcome,
           ?d\<lparr>incoming := [Delivers [0x68, 1, 0, 0, 0, 0, 0, 0x68, 0x91, 4, 0x33, 0x33, 0x33, 0x33, 0x32, 0x16]],
              events := events ?d @ attempt_trace [0x68, 1, 0, 0, 0, 0, 0, 0x68, 0x11, 4, 0x33, 0x33, 0x33, 0x33, 0xB2, 0x16] (Delivers []) @
                        [Sleep (if outcome = None then 500 else 1500)]\<rparr>))"
    using send_frame_retry [OF o(4), where address = "[1, 0, 0, 0, 0, 0]" and data_id = 0
        and request = "[0x68, 1, 0, 0, 0, 0, 0, 0x68, 0x11, 4, 0x33, 0x33, 0x33, 0x33, 0xB2, 0x16]" and e = "Delivers []" and rest = "[Delivers [0x68, 1, 0, 0, 0, 0, 0, 0x68, 0x91, 4, 0x33, 0x33, 0x33, 0x33, 0x32, 0x16]]"] hd
    by blast
  show ?thesis
    unfolding ra rb rc rd using b by simp
qed

end
